theory Spec2Isabelle
  imports Main "HOL-Library.Sublist"
begin

section \<open>Strings\<close>

text \<open>
  Python strings are sequences of code points. A \<^typ>\<open>string\<close> here is a list of
  \<^typ>\<open>char\<close>, read as the code points U+0000 to U+00FF; \<open>str.isspace\<close>,
  \<open>str.lower\<close> and \<open>str.strip\<close> are written out for exactly that range.
\<close>

definition newline :: char where
  "newline = CHR 0x0A"

definition isspace :: "char \<Rightarrow> bool" where
  "isspace c = (c \<in> set [CHR 0x09, CHR 0x0A, CHR 0x0B, CHR 0x0C, CHR 0x0D,
                         CHR 0x1C, CHR 0x1D, CHR 0x1E, CHR 0x1F, CHR 0x20,
                         CHR 0x85, CHR 0xA0])"

definition lstrip :: "string \<Rightarrow> string" where
  "lstrip s = dropWhile isspace s"

definition rstrip :: "string \<Rightarrow> string" where
  "rstrip s = rev (dropWhile isspace (rev s))"

definition strip :: "string \<Rightarrow> string" where
  "strip s = rstrip (lstrip s)"

definition lower_char :: "char \<Rightarrow> char" where
  "lower_char c =
     (let n = (of_char c :: nat)
      in if (65 \<le> n \<and> n \<le> 90) \<or> (192 \<le> n \<and> n \<le> 222 \<and> n \<noteq> 215)
         then char_of (n + 32) else c)"

definition lower :: "string \<Rightarrow> string" where
  "lower s = map lower_char s"

text \<open>\<open>startswith p s\<close> is \<open>s.startswith(p)\<close>; \<open>py_in p s\<close> is \<open>p in s\<close>.\<close>

fun startswith :: "string \<Rightarrow> string \<Rightarrow> bool" where
  "startswith [] s = True"
| "startswith (p # ps) [] = False"
| "startswith (p # ps) (c # cs) = (p = c \<and> startswith ps cs)"

fun py_in :: "string \<Rightarrow> string \<Rightarrow> bool" where
  "py_in p [] = (p = [])"
| "py_in p (c # cs) = (startswith p (c # cs) \<or> py_in p cs)"

section \<open>The question record and the bank\<close>

text \<open>
  \<open>options\<close> is a Python dict; it is kept as an association list in insertion order,
  written through \<open>dict_set\<close> (assignment \<open>d[k] = v\<close>).
\<close>

record Question =
  j_id :: string
  p_id :: string
  i_id :: string
  question :: string
  answer :: string
  options :: "(string \<times> string) list"
  image_path :: "string option"

definition new_Question :: Question where
  "new_Question = \<lparr>j_id = [], p_id = [], i_id = [], question = [], answer = [],
                    options = [], image_path = None\<rparr>"

fun dict_set :: "(string \<times> string) list \<Rightarrow> string \<Rightarrow> string \<Rightarrow> (string \<times> string) list" where
  "dict_set [] k v = [(k, v)]"
| "dict_set ((k', v') # d) k v = (if k' = k then (k, v) # d else (k', v') # dict_set d k v)"

definition dict_values :: "(string \<times> string) list \<Rightarrow> string list" where
  "dict_values d = map snd d"

definition dict_keys :: "(string \<times> string) list \<Rightarrow> string list" where
  "dict_keys d = map fst d"

record QuestionBank =
  questions :: "Question list"
  photo_dir :: string

section \<open>Fuzzy matching\<close>

definition normalize_char :: "char \<Rightarrow> char" where
  "normalize_char c =
     (let c_lower = lower_char c
      in if c_lower \<in> set [CHR ''l'', CHR ''i'', CHR ''1''] then CHR ''i''
         else if c_lower \<in> set [CHR ''o'', CHR ''0''] then CHR ''0''
         else c_lower)"

definition normalize :: "string \<Rightarrow> string" where
  "normalize s = map normalize_char s"

definition fuzzy_match :: "string \<Rightarrow> string \<Rightarrow> bool" where
  "fuzzy_match pattern text =
     (if pattern = [] \<or> text = [] then False
      else let pattern_lower = lower pattern; text_lower = lower text
           in if py_in pattern_lower text_lower then True
              else let pattern_normalized = normalize pattern;
                       text_normalized = normalize text
                   in if py_in pattern_normalized text_normalized then True else False)"

section \<open>The three search modes\<close>

text \<open>Each search is a loop over the bank's questions that appends the matching ones.\<close>

definition keyword_hit :: "string \<Rightarrow> Question \<Rightarrow> bool" where
  "keyword_hit keyword q =
     (fuzzy_match keyword (question q) \<or> fuzzy_match keyword (j_id q) \<or>
      fuzzy_match keyword (p_id q) \<or>
      list_ex (\<lambda>opt. fuzzy_match keyword opt) (dict_values (options q)))"

fun search_loop :: "(Question \<Rightarrow> bool) \<Rightarrow> Question list \<Rightarrow> Question list \<Rightarrow> Question list" where
  "search_loop hit [] results = results"
| "search_loop hit (q # qs) results =
     search_loop hit qs (if hit q then results @ [q] else results)"

definition search_by_keyword :: "QuestionBank \<Rightarrow> string \<Rightarrow> Question list" where
  "search_by_keyword bank keyword =
     (if keyword = [] then questions bank
      else let keyword' = strip keyword
           in search_loop (keyword_hit keyword') (questions bank) [])"

definition search_by_chapter :: "QuestionBank \<Rightarrow> string \<Rightarrow> Question list" where
  "search_by_chapter bank chapter =
     (if chapter = [] then questions bank
      else let chapter' = strip chapter
           in search_loop (\<lambda>q. fuzzy_match chapter' (p_id q)) (questions bank) [])"

definition search_by_id :: "QuestionBank \<Rightarrow> string \<Rightarrow> Question list" where
  "search_by_id bank question_id =
     (if question_id = [] then questions bank
      else let question_id' = strip question_id
           in search_loop (\<lambda>q. fuzzy_match question_id' (i_id q)) (questions bank) [])"

section \<open>The operating system seen by the parser\<close>

text \<open>
  \<open>os.path.exists\<close>, \<open>os.path.abspath\<close>, reading a file and the location of the script
  depend on the machine, so they are fields of an environment. \<open>read_text\<close> gives
  \<open>None\<close> when \<open>open\<close> or \<open>read\<close> raises. \<open>os.path.join\<close>, \<open>os.path.dirname\<close> and
  \<open>os.path.splitext\<close> are pure string functions, written out as in \<open>posixpath\<close>.
\<close>

record os_env =
  path_exists :: "string \<Rightarrow> bool"
  abspath :: "string \<Rightarrow> string"
  read_text :: "string \<Rightarrow> string option"
  script_file :: string

definition endswith :: "string \<Rightarrow> string \<Rightarrow> bool" where
  "endswith p s = startswith (rev p) (rev s)"

definition path_join :: "string \<Rightarrow> string \<Rightarrow> string" where
  "path_join a b =
     (if startswith ''/'' b then b
      else if a = [] \<or> endswith ''/'' a then a @ b
      else a @ ''/'' @ b)"

definition dirname :: "string \<Rightarrow> string" where
  "dirname p =
     (let head = rev (dropWhile (\<lambda>c. c \<noteq> CHR ''/'') (rev p))
      in if head \<noteq> [] \<and> \<not> list_all (\<lambda>c. c = CHR ''/'') head
         then rev (dropWhile (\<lambda>c. c = CHR ''/'') (rev head)) else head)"

text \<open>\<open>splitext_root p\<close> is \<open>os.path.splitext(p)[0]\<close>.\<close>

definition splitext_root :: "string \<Rightarrow> string" where
  "splitext_root p =
     (let name = rev (takeWhile (\<lambda>c. c \<noteq> CHR ''/'') (rev p));
          dir = take (length p - length name) p
      in if CHR ''.'' \<in> set name
         then let stem = rev (tl (dropWhile (\<lambda>c. c \<noteq> CHR ''.'') (rev name)))
              in if list_ex (\<lambda>c. c \<noteq> CHR ''.'') stem then dir @ stem else p
         else p)"

section \<open>The two regular expressions\<close>

definition tag :: "char \<Rightarrow> string" where
  "tag X = [CHR ''['', X, CHR '']'']"

text \<open>
  \<open>re.search(r'\[X\]([^\n]+)', text)\<close>: the leftmost position where the tag stands and is
  followed by at least one character other than a newline; group 1 is the longest run of
  such characters. The result is group 1, \<open>None\<close> when there is no match.
\<close>

fun re_search_tag :: "char \<Rightarrow> string \<Rightarrow> string option" where
  "re_search_tag X [] = None"
| "re_search_tag X (c # cs) =
     (let group1 = takeWhile (\<lambda>d. d \<noteq> newline) (drop 3 (c # cs))
      in if startswith (tag X) (c # cs) \<and> group1 \<noteq> [] then Some group1
         else re_search_tag X cs)"

text \<open>
  \<open>tag_match_at X text i\<close>: the expression \<open>\[X\]([^\n]+)\<close> matches at position \<open>i\<close>
  of \<open>text\<close>, that is the tag stands there and the next character exists and is not a
  newline.
\<close>

definition tag_match_at :: "char \<Rightarrow> string \<Rightarrow> nat \<Rightarrow> bool" where
  "tag_match_at X text i =
     (startswith (tag X) (drop i text) \<and> i + 3 < length text \<and> text ! (i + 3) \<noteq> newline)"

text \<open>
  \<open>re.findall(r'\[J\](.*?)(?=\[J\]|$)', content, re.DOTALL)\<close>. \<open>lazy_group s\<close> is what
  the lazy group \<open>(.*?)\<close> takes of \<open>s\<close>: it grows one character at a time until the
  lookahead holds, that is until \<open>[J]\<close> follows or \<open>$\<close> matches (at the end of the
  string, or before a newline that is its last character). \<open>findall_J\<close> returns group 1
  of every match, each search resuming where the previous match ended.
\<close>

fun lazy_group :: "string \<Rightarrow> string" where
  "lazy_group [] = []"
| "lazy_group (c # cs) =
     (if startswith (tag CHR ''J'') (c # cs) \<or> (c = newline \<and> cs = []) then []
      else c # lazy_group cs)"

fun findall_J :: "string \<Rightarrow> string list" where
  "findall_J [] = []"
| "findall_J (c # cs) =
     (if startswith (tag CHR ''J'') (c # cs)
      then let group1 = lazy_group (drop 3 (c # cs))
           in group1 # findall_J (drop (length group1) (drop 3 (c # cs)))
      else findall_J cs)"

section \<open>Parsing one question\<close>

definition image_extensions :: "string list" where
  "image_extensions = [''.jpg'', ''.png'', ''.jpeg'', ''.JPG'', ''.PNG'', ''.JPEG'']"

text \<open>The \<open>for ext in [...]\<close> loop with its \<open>break\<close>; the result is the path held by \<open>image_path\<close> after the loop.\<close>

fun ext_loop :: "os_env \<Rightarrow> string \<Rightarrow> string \<Rightarrow> string list \<Rightarrow> string \<Rightarrow> string" where
  "ext_loop env abs_photo_dir base_name [] img_path = img_path"
| "ext_loop env abs_photo_dir base_name (ext # exts) img_path =
     (let alt_path = path_join abs_photo_dir (base_name @ ext)
      in if path_exists env alt_path then alt_path
         else ext_loop env abs_photo_dir base_name exts img_path)"

definition resolve_image :: "os_env \<Rightarrow> string \<Rightarrow> string \<Rightarrow> string option" where
  "resolve_image env photo_dir' image_filename =
     (if photo_dir' \<noteq> [] then
        let abs_photo_dir = abspath env photo_dir';
            img_path0 = path_join abs_photo_dir image_filename;
            img_path1 =
              (if \<not> path_exists env img_path0
               then let base_name = splitext_root image_filename
                    in ext_loop env abs_photo_dir base_name image_extensions img_path0
               else img_path0)
        in if path_exists env img_path1 then Some (abspath env img_path1) else None
      else None)"

text \<open>The \<open>for option in ['A', 'B', 'C', 'D']\<close> loop.\<close>

fun options_loop :: "string \<Rightarrow> char list \<Rightarrow> Question \<Rightarrow> Question" where
  "options_loop text [] q = q"
| "options_loop text (option # rest) q =
     options_loop text rest
       (case re_search_tag option text of
          Some g \<Rightarrow> q\<lparr>options := dict_set (options q) [option] (strip g)\<rparr>
        | None \<Rightarrow> q)"

definition parse_question :: "os_env \<Rightarrow> string \<Rightarrow> string \<Rightarrow> Question option" where
  "parse_question env photo_dir' text =
     (let q0 = new_Question;
          q1 = (case re_search_tag CHR ''J'' text of
                  Some g \<Rightarrow> q0\<lparr>j_id := strip g\<rparr> | None \<Rightarrow> q0);
          q2 = (case re_search_tag CHR ''P'' text of
                  Some g \<Rightarrow> q1\<lparr>p_id := strip g\<rparr> | None \<Rightarrow> q1);
          q3 = (case re_search_tag CHR ''I'' text of
                  Some g \<Rightarrow> q2\<lparr>i_id := strip g\<rparr> | None \<Rightarrow> q2);
          q4 = (case re_search_tag CHR ''Q'' text of
                  Some g \<Rightarrow> q3\<lparr>question := strip g\<rparr> | None \<Rightarrow> q3);
          q5 = (case re_search_tag CHR ''T'' text of
                  Some g \<Rightarrow> q4\<lparr>answer := strip g\<rparr> | None \<Rightarrow> q4);
          q6 = options_loop text ''ABCD'' q5;
          q7 = (case re_search_tag CHR ''F'' text of
                  Some g \<Rightarrow> q6\<lparr>image_path := resolve_image env photo_dir' (strip g)\<rparr>
                | None \<Rightarrow> q6)
      in if question q7 \<noteq> [] then Some q7 else None)"

section \<open>Loading a bank\<close>

text \<open>
  \<open>load_from_file\<close> returns the boolean of the source together with the bank as the call
  leaves it. \<open>photo_dir_arg\<close> is the optional argument (\<open>None\<close> for Python's \<open>None\<close>).
  The assignment \<open>self.questions = []\<close> comes after the file is read, so a failed read
  returns from the \<open>except\<close> branch with the old list.
\<close>

fun load_loop :: "os_env \<Rightarrow> string list \<Rightarrow> QuestionBank \<Rightarrow> QuestionBank" where
  "load_loop env [] bank = bank"
| "load_loop env (m # ms) bank =
     load_loop env ms
       (case parse_question env (photo_dir bank) m of
          Some q \<Rightarrow> bank\<lparr>questions := questions bank @ [q]\<rparr>
        | None \<Rightarrow> bank)"

definition choose_photo_dir :: "os_env \<Rightarrow> string \<Rightarrow> string option \<Rightarrow> string" where
  "choose_photo_dir env filepath photo_dir_arg =
     (if photo_dir_arg \<noteq> None \<and> photo_dir_arg \<noteq> Some [] then the photo_dir_arg
      else let file_dir = dirname filepath;
               potential_photo_dir = path_join file_dir ''photo''
           in if path_exists env potential_photo_dir then potential_photo_dir
              else let base_dir = dirname (abspath env (script_file env));
                       tk_photo_dir = path_join (path_join base_dir ''TK'') ''photo''
                   in if path_exists env tk_photo_dir then tk_photo_dir else [])"

definition load_from_file ::
  "os_env \<Rightarrow> QuestionBank \<Rightarrow> string \<Rightarrow> string option \<Rightarrow> bool \<times> QuestionBank" where
  "load_from_file env bank filepath photo_dir_arg =
     (let bank1 = bank\<lparr>photo_dir := choose_photo_dir env filepath photo_dir_arg\<rparr>
      in case read_text env filepath of
           None \<Rightarrow> (False, bank1)
         | Some content \<Rightarrow>
             let matches = findall_J content;
                 bank2 = load_loop env matches (bank1\<lparr>questions := []\<rparr>)
             in (length (questions bank2) > 0, bank2))"

text \<open>
  \<open>field_value X text\<close> is the value a scalar attribute gets from tag \<open>X\<close>: the trimmed
  group of the match, or the attribute's default, the empty string. \<open>scalars text\<close> is the
  question as it stands before the options loop.
\<close>

definition field_value :: "char \<Rightarrow> string \<Rightarrow> string" where
  "field_value X text = (case re_search_tag X text of Some g \<Rightarrow> strip g | None \<Rightarrow> [])"

definition scalars :: "string \<Rightarrow> Question" where
  "scalars text =
     \<lparr>j_id = field_value CHR ''J'' text, p_id = field_value CHR ''P'' text,
      i_id = field_value CHR ''I'' text, question = field_value CHR ''Q'' text,
      answer = field_value CHR ''T'' text, options = [], image_path = None\<rparr>"

section \<open>The specification's wording, for comparison\<close>

text \<open>
  These follow the words of the specification, not the code: lines are the pieces between
  newlines; a record starts at a line beginning with \<open>[J]\<close>; a field is read from the
  first line of the form \<open>[X]rest\<close>; a search tests the query as given.
\<close>

fun split_lines :: "string \<Rightarrow> string list" where
  "split_lines [] = [[]]"
| "split_lines (c # cs) =
     (if c = newline then [] # split_lines cs
      else (case split_lines cs of l # ls \<Rightarrow> (c # l) # ls | [] \<Rightarrow> [[c]]))"

definition spec_record_count :: "string \<Rightarrow> nat" where
  "spec_record_count content =
     length (filter (startswith (tag CHR ''J'')) (split_lines content))"

definition spec_field :: "char \<Rightarrow> string \<Rightarrow> string option" where
  "spec_field X chunk =
     (case find (startswith (tag X)) (split_lines chunk) of
        Some l \<Rightarrow> Some (strip (drop 3 l))
      | None \<Rightarrow> None)"

definition spec_keyword_match :: "string \<Rightarrow> Question \<Rightarrow> bool" where
  "spec_keyword_match query q =
     (fuzzy_match query (question q) \<or> fuzzy_match query (j_id q) \<or>
      fuzzy_match query (p_id q) \<or>
      list_ex (fuzzy_match query) (map snd (options q)))"

definition spec_searchByKeyword :: "string \<Rightarrow> Question list \<Rightarrow> Question list" where
  "spec_searchByKeyword query records = filter (spec_keyword_match query) records"

definition spec_chapter_match :: "string \<Rightarrow> Question \<Rightarrow> bool" where
  "spec_chapter_match query q = fuzzy_match query (p_id q)"

definition spec_searchByChapter :: "string \<Rightarrow> Question list \<Rightarrow> Question list" where
  "spec_searchByChapter query records = filter (spec_chapter_match query) records"

section \<open>Concrete inputs\<close>

text \<open>\<open>text_of_lines\<close> writes each line followed by a newline.\<close>

definition text_of_lines :: "string list \<Rightarrow> string" where
  "text_of_lines ls = concat (map (\<lambda>l. l @ [newline]) ls)"

definition scenario_text :: string where
  "scenario_text = text_of_lines [''[J]Q001'', ''[P]1.2.1'', ''[I]MC'', ''[Q]What is X?'',
                                  ''[A]OptA'', ''[B]OptB'', ''[T]A'']"

text \<open>
  A machine with four readable files and one image, \<open>/bank/photo/img1.png\<close>; paths are
  already absolute.
\<close>

definition env_sample :: os_env where
  "env_sample =
     \<lparr>path_exists = (\<lambda>p. p \<in> set [''/bank/photo'', ''/bank/photo/img1.png'']),
      abspath = (\<lambda>p. p),
      read_text = (\<lambda>p. if p = ''/bank/a.txt'' then Some scenario_text
                        else if p = ''/bank/empty.txt'' then Some []
                        else if p = ''/bank/inline.txt''
                          then Some (text_of_lines [''[J]1'', ''[Q]a [J]2'', ''[Q]b''])
                        else if p = ''/bank/mixed.txt''
                          then Some (text_of_lines [''[J]1'', ''[P]1.1'', ''[J]2'', ''[Q]b'',
                                                    ''[C]third'', ''[F]img1.bmp''])
                        else None),
      script_file = ''/app/main.py''\<rparr>"

text \<open>A one-question bank used for concrete runs of the search functions.\<close>

definition q_sample :: Question where
  "q_sample = \<lparr>j_id = [], p_id = ''1.2.1'', i_id = ''MC'', question = ''What is X?'',
                answer = ''A'', options = [(''A'', ''OptA''), (''B'', ''OptB'')],
                image_path = None\<rparr>"

definition bank_sample :: QuestionBank where
  "bank_sample = \<lparr>questions = [q_sample], photo_dir = []\<rparr>"

section \<open>Helper lemmas: strings and search\<close>

lemma startswith_prefix: "startswith p s = prefix p s"
  by (induction p s rule: startswith.induct) simp_all

lemma py_in_sublist: "py_in p s = sublist p s"
proof (induction s)
  case Nil
  then show ?case by simp
next
  case (Cons c cs)
  then show ?case by (simp add: startswith_prefix sublist_Cons_right)
qed

lemma search_loop_filter: "search_loop hit qs results = results @ filter hit qs"
  by (induction qs arbitrary: results) simp_all

lemma strip_Nil: "strip [] = []"
  by (simp add: strip_def rstrip_def lstrip_def)

lemma strip_all_space: "list_all isspace s \<Longrightarrow> strip s = []"
  by (auto simp: strip_def rstrip_def lstrip_def list_all_iff dest: set_dropWhileD)

lemma fuzzy_match_empty_pattern: "fuzzy_match [] t = False"
  by (simp add: fuzzy_match_def)

lemma search_loop_never: "search_loop (\<lambda>q. False) qs results = results"
  by (simp add: search_loop_filter)

lemma keyword_hit_empty: "keyword_hit [] q = False"
  by (simp add: keyword_hit_def fuzzy_match_empty_pattern list_ex_iff)

section \<open>Claims about fuzzy matching and search\<close>

text \<open>
  C3 (as stated): for a query that is empty or only whitespace, each of the three search
  modes returns the full record list. On the code this fails for a query of one space:
  the emptiness test comes before \<open>strip\<close>, the stripped pattern is empty, and
  \<open>fuzzy_match\<close> rejects an empty pattern, so nothing is returned.
\<close>

theorem C3_whitespace_query_counterexample:
  "list_all isspace '' '' \<and>
   search_by_keyword bank_sample '' '' \<noteq> questions bank_sample \<and>
   search_by_chapter bank_sample '' '' \<noteq> questions bank_sample \<and>
   search_by_id bank_sample '' '' \<noteq> questions bank_sample"
  by code_simp

text \<open>
  C3 (amended): for the empty query each of the three search modes returns the full record
  list unchanged, in the same order; for a non-empty query made only of whitespace each of
  them returns the empty list.
\<close>

theorem C3_empty_and_blank_query:
  "search_by_keyword bank [] = questions bank \<and>
   search_by_chapter bank [] = questions bank \<and>
   search_by_id bank [] = questions bank \<and>
   (query \<noteq> [] \<and> list_all isspace query \<longrightarrow>
      search_by_keyword bank query = [] \<and>
      search_by_chapter bank query = [] \<and>
      search_by_id bank query = [])"
proof -
  have empty: "search_by_keyword bank [] = questions bank"
    "search_by_chapter bank [] = questions bank"
    "search_by_id bank [] = questions bank"
    by (simp_all add: search_by_keyword_def search_by_chapter_def search_by_id_def)
  have blank: "search_by_keyword bank query = [] \<and> search_by_chapter bank query = [] \<and>
      search_by_id bank query = []" if ne: "query \<noteq> []" and ws: "list_all isspace query"
  proof -
    have s: "strip query = []" using ws by (rule strip_all_space)
    have k: "keyword_hit [] = (\<lambda>q. False)" by (rule ext) (simp add: keyword_hit_empty)
    show ?thesis
      using ne
      by (simp add: search_by_keyword_def search_by_chapter_def search_by_id_def s k
          fuzzy_match_empty_pattern search_loop_never)
  qed
  from empty blank show ?thesis by blast
qed

theorem C3_empty_and_blank_query_witness:
  "'' '' \<noteq> [] \<and> list_all isspace '' '' \<and>
   search_by_keyword bank_sample [] = [q_sample] \<and>
   search_by_keyword bank_sample '' '' = [] \<and>
   search_by_chapter bank_sample '' '' = [] \<and>
   search_by_id bank_sample '' '' = []"
proof -
  have h: "'' '' \<noteq> [] \<and> list_all isspace '' ''" by code_simp
  have b: "questions bank_sample = [q_sample]" by (simp add: bank_sample_def)
  show ?thesis
    using h b C3_empty_and_blank_query [of bank_sample "'' ''"] by simp
qed

text \<open>
  C4: \<open>fuzzy_match\<close> is false when either string is empty; true when the lower-cased
  pattern is a substring of the lower-cased text; otherwise true exactly when the
  normalized pattern is a substring of the normalized text, where normalizing a character
  lower-cases it, sends l, i, 1 to i and o, 0 to 0 and keeps every other lower-cased
  character. \<open>fuzzy_match "l0ve" "I0VE"\<close> holds and \<open>fuzzy_match "xyz" "abc"\<close> does not.
\<close>

theorem C4_fuzzy_match_spec:
  "(pattern = [] \<or> text = [] \<longrightarrow> \<not> fuzzy_match pattern text) \<and>
   (pattern \<noteq> [] \<and> text \<noteq> [] \<and> sublist (lower pattern) (lower text)
      \<longrightarrow> fuzzy_match pattern text) \<and>
   (pattern \<noteq> [] \<and> text \<noteq> [] \<and> \<not> sublist (lower pattern) (lower text)
      \<longrightarrow> fuzzy_match pattern text
           = sublist (map normalize_char pattern) (map normalize_char text)) \<and>
   normalize_char c =
     (if lower_char c \<in> {CHR ''l'', CHR ''i'', CHR ''1''} then CHR ''i''
      else if lower_char c \<in> {CHR ''o'', CHR ''0''} then CHR ''0''
      else lower_char c) \<and>
   fuzzy_match ''l0ve'' ''I0VE'' \<and> \<not> fuzzy_match ''xyz'' ''abc''"
proof -
  have a: "pattern = [] \<or> text = [] \<longrightarrow> \<not> fuzzy_match pattern text"
    by (simp add: fuzzy_match_def)
  have b: "pattern \<noteq> [] \<and> text \<noteq> [] \<and> sublist (lower pattern) (lower text)
      \<longrightarrow> fuzzy_match pattern text"
    by (simp add: fuzzy_match_def py_in_sublist)
  have c: "pattern \<noteq> [] \<and> text \<noteq> [] \<and> \<not> sublist (lower pattern) (lower text)
      \<longrightarrow> fuzzy_match pattern text
           = sublist (map normalize_char pattern) (map normalize_char text)"
    by (simp add: fuzzy_match_def py_in_sublist normalize_def)
  have d: "normalize_char c =
     (if lower_char c \<in> {CHR ''l'', CHR ''i'', CHR ''1''} then CHR ''i''
      else if lower_char c \<in> {CHR ''o'', CHR ''0''} then CHR ''0''
      else lower_char c)"
    by (simp add: normalize_char_def Let_def)
  have e: "fuzzy_match ''l0ve'' ''I0VE''" by code_simp
  have f: "\<not> fuzzy_match ''xyz'' ''abc''" by code_simp
  from a b c d e f show ?thesis by blast
qed

theorem C4_fuzzy_match_spec_witness:
  "''l0ve'' \<noteq> [] \<and> ''I0VE'' \<noteq> [] \<and> \<not> sublist (lower ''l0ve'') (lower ''I0VE'') \<and>
   fuzzy_match ''l0ve'' ''I0VE''
     = sublist (map normalize_char ''l0ve'') (map normalize_char ''I0VE'') \<and>
   \<not> fuzzy_match [] ''I0VE'' \<and>
   sublist (lower ''Ve'') (lower ''I0VE'') \<and> fuzzy_match ''Ve'' ''I0VE''"
proof -
  have h1: "\<not> sublist (lower ''l0ve'') (lower ''I0VE'')" by code_simp
  have h2: "sublist (lower ''Ve'') (lower ''I0VE'')" by code_simp
  show ?thesis
    using h1 h2 C4_fuzzy_match_spec [of "''l0ve''" "''I0VE''" "CHR ''l''"]
      C4_fuzzy_match_spec [of "[]" "''I0VE''" "CHR ''l''"]
      C4_fuzzy_match_spec [of "''Ve''" "''I0VE''" "CHR ''l''"]
    by simp
qed

section \<open>Helper lemmas: parsing and loading\<close>

lemma options_loop_fields:
  "j_id (options_loop text ks q) = j_id q"
  "p_id (options_loop text ks q) = p_id q"
  "i_id (options_loop text ks q) = i_id q"
  "question (options_loop text ks q) = question q"
  "answer (options_loop text ks q) = answer q"
  "image_path (options_loop text ks q) = image_path q"
  by (induction ks arbitrary: q; simp split: option.splits)+

lemma parse_question_eq:
  "parse_question env pd text =
     (if field_value CHR ''Q'' text \<noteq> []
      then Some ((options_loop text ''ABCD'' (scalars text))
                   \<lparr>image_path := (case re_search_tag CHR ''F'' text of
                           Some g \<Rightarrow> resolve_image env pd (strip g) | None \<Rightarrow> None)\<rparr>)
      else None)"
proof -
  define q1 where "q1 = (case re_search_tag CHR ''J'' text of
                  Some g \<Rightarrow> new_Question\<lparr>j_id := strip g\<rparr> | None \<Rightarrow> new_Question)"
  define q2 where "q2 = (case re_search_tag CHR ''P'' text of
                  Some g \<Rightarrow> q1\<lparr>p_id := strip g\<rparr> | None \<Rightarrow> q1)"
  define q3 where "q3 = (case re_search_tag CHR ''I'' text of
                  Some g \<Rightarrow> q2\<lparr>i_id := strip g\<rparr> | None \<Rightarrow> q2)"
  define q4 where "q4 = (case re_search_tag CHR ''Q'' text of
                  Some g \<Rightarrow> q3\<lparr>question := strip g\<rparr> | None \<Rightarrow> q3)"
  define q5 where "q5 = (case re_search_tag CHR ''T'' text of
                  Some g \<Rightarrow> q4\<lparr>answer := strip g\<rparr> | None \<Rightarrow> q4)"
  define q6 where "q6 = options_loop text ''ABCD'' q5"
  define q7 where "q7 = (case re_search_tag CHR ''F'' text of
                  Some g \<Rightarrow> q6\<lparr>image_path := resolve_image env pd (strip g)\<rparr>
                | None \<Rightarrow> q6)"
  have pq: "parse_question env pd text = (if question q7 \<noteq> [] then Some q7 else None)"
    by (simp only: parse_question_def Let_def q1_def q2_def q3_def q4_def q5_def q6_def q7_def)
  have e1: "q1 = new_Question\<lparr>j_id := field_value CHR ''J'' text\<rparr>"
    by (cases "re_search_tag CHR ''J'' text") (simp_all add: q1_def field_value_def new_Question_def)
  have e2: "q2 = q1\<lparr>p_id := field_value CHR ''P'' text\<rparr>"
    by (cases "re_search_tag CHR ''P'' text")
      (simp_all add: q2_def field_value_def e1 new_Question_def)
  have e3: "q3 = q2\<lparr>i_id := field_value CHR ''I'' text\<rparr>"
    by (cases "re_search_tag CHR ''I'' text")
      (simp_all add: q3_def field_value_def e2 e1 new_Question_def)
  have e4: "q4 = q3\<lparr>question := field_value CHR ''Q'' text\<rparr>"
    by (cases "re_search_tag CHR ''Q'' text")
      (simp_all add: q4_def field_value_def e3 e2 e1 new_Question_def)
  have e5: "q5 = q4\<lparr>answer := field_value CHR ''T'' text\<rparr>"
    by (cases "re_search_tag CHR ''T'' text")
      (simp_all add: q5_def field_value_def e4 e3 e2 e1 new_Question_def)
  have s: "q5 = scalars text"
    by (simp add: e5 e4 e3 e2 e1 new_Question_def scalars_def)
  have i6: "image_path q6 = None"
    unfolding q6_def options_loop_fields by (simp add: s scalars_def)
  have e7: "q7 = q6\<lparr>image_path := (case re_search_tag CHR ''F'' text of
                           Some g \<Rightarrow> resolve_image env pd (strip g) | None \<Rightarrow> None)\<rparr>"
  proof (cases "re_search_tag CHR ''F'' text")
    case None
    have "q6 = q6\<lparr>image_path := image_path q6\<rparr>" by simp
    with None i6 show ?thesis by (simp add: q7_def)
  next
    case (Some g)
    then show ?thesis by (simp add: q7_def)
  qed
  have "question q7 = question q6" by (simp add: e7)
  also have "\<dots> = question q5" unfolding q6_def options_loop_fields by (rule refl)
  finally have q: "question q7 = field_value CHR ''Q'' text"
    by (simp add: s scalars_def)
  show ?thesis
    by (simp only: pq q) (simp only: e7 q6_def s)
qed


lemma load_loop_map_filter:
  "load_loop env ms bank =
     bank\<lparr>questions := questions bank @ List.map_filter (parse_question env (photo_dir bank)) ms\<rparr>"
proof (induction ms arbitrary: bank)
  case Nil
  then show ?case by (simp add: List.map_filter_simps)
next
  case (Cons m ms)
  then show ?case by (simp add: List.map_filter_simps split: option.splits)
qed

lemma load_from_file_read:
  "read_text env filepath = Some content \<Longrightarrow>
   load_from_file env bank filepath pd =
     (let d = choose_photo_dir env filepath pd;
          qs = List.map_filter (parse_question env d) (findall_J content)
      in (qs \<noteq> [], \<lparr>questions = qs, photo_dir = d\<rparr>))"
  by (simp add: load_from_file_def Let_def load_loop_map_filter)

lemma load_from_file_unreadable:
  "read_text env filepath = None \<Longrightarrow>
   load_from_file env bank filepath pd =
     (False, bank\<lparr>photo_dir := choose_photo_dir env filepath pd\<rparr>)"
  by (simp add: load_from_file_def)

lemma re_search_tag_sublist: "re_search_tag X s = Some v \<Longrightarrow> sublist (tag X) s"
proof (induction s)
  case Nil
  then show ?case by simp
next
  case (Cons c cs)
  show ?case
  proof (cases "startswith (tag X) (c # cs)")
    case True
    then show ?thesis by (simp add: startswith_prefix sublist_Cons_right)
  next
    case False
    with Cons show ?thesis by (simp add: sublist_Cons_right Let_def)
  qed
qed

lemma lazy_group_prefix: "prefix (lazy_group s) s"
  by (induction s) simp_all

lemma lazy_group_no_tag: "\<not> sublist (tag CHR ''J'') (lazy_group s)"
proof (induction s)
  case Nil
  then show ?case by (simp add: tag_def)
next
  case (Cons c cs)
  show ?case
  proof (cases "startswith (tag CHR ''J'') (c # cs) \<or> (c = newline \<and> cs = [])")
    case True
    then show ?thesis by (simp add: tag_def)
  next
    case False
    then have g: "lazy_group (c # cs) = c # lazy_group cs" by simp
    have "\<not> prefix (tag CHR ''J'') (c # lazy_group cs)"
    proof
      assume "prefix (tag CHR ''J'') (c # lazy_group cs)"
      moreover have "prefix (c # lazy_group cs) (c # cs)" by (simp add: lazy_group_prefix)
      ultimately have "prefix (tag CHR ''J'') (c # cs)" by (rule prefix_order.trans)
      with False show False by (simp add: startswith_prefix)
    qed
    with Cons g show ?thesis by (simp add: sublist_Cons_right)
  qed
qed

lemma findall_J_no_tag: "g \<in> set (findall_J s) \<Longrightarrow> \<not> sublist (tag CHR ''J'') g"
proof (induction s arbitrary: g rule: findall_J.induct)
  case 1
  then show ?case by simp
next
  case (2 c cs)
  show ?case
  proof (cases "startswith (tag CHR ''J'') (c # cs)")
    case True
    with 2 show ?thesis by (auto simp: Let_def lazy_group_no_tag)
  next
    case False
    with 2 show ?thesis by simp
  qed
qed

lemma findall_J_field_J: "g \<in> set (findall_J s) \<Longrightarrow> field_value CHR ''J'' g = []"
proof -
  assume g: "g \<in> set (findall_J s)"
  have "re_search_tag CHR ''J'' g = None"
  proof (cases "re_search_tag CHR ''J'' g")
    case None
    then show ?thesis .
  next
    case (Some v)
    then have "sublist (tag CHR ''J'') g" by (rule re_search_tag_sublist)
    with findall_J_no_tag [OF g] show ?thesis by simp
  qed
  then show ?thesis by (simp add: field_value_def)
qed

lemma parse_question_j_id:
  "parse_question env pd text = Some q \<Longrightarrow> j_id q = field_value CHR ''J'' text"
  unfolding parse_question_eq
  by (auto simp: options_loop_fields scalars_def split: if_splits simp del: options_loop.simps)

lemma load_j_id_always_empty:
  assumes r: "read_text env filepath = Some content"
    and q: "q \<in> set (questions (snd (load_from_file env bank filepath pd)))"
  shows "j_id q = []"
proof -
  from q obtain g where g: "g \<in> set (findall_J content)"
    and p: "parse_question env (choose_photo_dir env filepath pd) g = Some q"
    unfolding load_from_file_read [OF r] by (auto simp: Let_def List.map_filter_def)
  from parse_question_j_id [OF p] findall_J_field_J [OF g] show ?thesis by simp
qed

section \<open>Claims about keyword and chapter search\<close>

text \<open>
  C7 (as stated): for every query that is not only whitespace, \<open>search_by_keyword\<close> returns
  exactly the records that \<open>fuzzy_match\<close> the query in the question body, the display id,
  the chapter id or an option text. On the code this fails for a query with a leading
  space: the code matches the stripped query, which finds option \<open>OptA\<close>, while the query
  as given matches nothing.
\<close>

theorem C7_untrimmed_keyword_counterexample:
  "\<not> list_all isspace '' OptA'' \<and>
   search_by_keyword bank_sample '' OptA'' = [q_sample] \<and>
   spec_searchByKeyword '' OptA'' (questions bank_sample) = []"
  by code_simp

text \<open>
  C7 (amended): for every non-empty query (so for every query that is not only whitespace),
  \<open>search_by_keyword\<close> returns exactly the records for which \<open>fuzzy_match\<close> of the
  query stripped of leading and trailing whitespace holds for the question body, the display
  id, the chapter id or some option text, in the original record order.
\<close>

theorem C7_keyword_search:
  assumes "keyword \<noteq> []"
  shows "search_by_keyword bank keyword =
     filter (\<lambda>q. fuzzy_match (strip keyword) (question q) \<or>
                 fuzzy_match (strip keyword) (j_id q) \<or>
                 fuzzy_match (strip keyword) (p_id q) \<or>
                 (\<exists>opt \<in> set (dict_values (options q)). fuzzy_match (strip keyword) opt))
       (questions bank)"
proof -
  have "keyword_hit (strip keyword) =
      (\<lambda>q. fuzzy_match (strip keyword) (question q) \<or>
                 fuzzy_match (strip keyword) (j_id q) \<or>
                 fuzzy_match (strip keyword) (p_id q) \<or>
                 (\<exists>opt \<in> set (dict_values (options q)). fuzzy_match (strip keyword) opt))"
    by (rule ext) (simp add: keyword_hit_def list_ex_iff)
  with assms show ?thesis
    by (simp add: search_by_keyword_def search_loop_filter)
qed

theorem C7_keyword_search_witness:
  "'' OptA'' \<noteq> [] \<and> search_by_keyword bank_sample '' OptA'' = [q_sample]"
proof -
  have h: "'' OptA'' \<noteq> []" by simp
  have e: "filter (\<lambda>q. fuzzy_match (strip '' OptA'') (question q) \<or>
                 fuzzy_match (strip '' OptA'') (j_id q) \<or>
                 fuzzy_match (strip '' OptA'') (p_id q) \<or>
                 (\<exists>opt \<in> set (dict_values (options q)). fuzzy_match (strip '' OptA'') opt))
       (questions bank_sample) = [q_sample]"
    by code_simp
  show ?thesis
    using h e C7_keyword_search [OF h, of bank_sample] by simp
qed

text \<open>
  C8 (as stated): for every query that is not only whitespace, \<open>search_by_chapter\<close> returns
  exactly the records whose chapter id \<open>fuzzy_match\<close>es the query. On the code this fails
  for the query \<open>" 1.2"\<close>: stripped it matches chapter \<open>1.2.1\<close>, as given it does not.
\<close>

theorem C8_untrimmed_chapter_counterexample:
  "\<not> list_all isspace '' 1.2'' \<and>
   search_by_chapter bank_sample '' 1.2'' = [q_sample] \<and>
   spec_searchByChapter '' 1.2'' (questions bank_sample) = []"
  by code_simp

text \<open>
  C8 (amended): for every non-empty query, \<open>search_by_chapter\<close> returns exactly the records
  whose chapter id satisfies \<open>fuzzy_match\<close> with the query stripped of leading and trailing
  whitespace, in the original record order; the test is a substring test, so the query
  \<open>1.2\<close> matches the chapter ids \<open>1.2\<close>, \<open>1.2.3\<close>, \<open>1.20\<close> and \<open>21.2\<close>.
\<close>

theorem C8_chapter_search:
  "(chapter \<noteq> [] \<longrightarrow>
      search_by_chapter bank chapter =
        filter (\<lambda>q. fuzzy_match (strip chapter) (p_id q)) (questions bank)) \<and>
   fuzzy_match ''1.2'' ''1.2'' \<and> fuzzy_match ''1.2'' ''1.2.3'' \<and>
   fuzzy_match ''1.2'' ''1.20'' \<and> fuzzy_match ''1.2'' ''21.2''"
proof -
  have a: "chapter \<noteq> [] \<longrightarrow>
      search_by_chapter bank chapter =
        filter (\<lambda>q. fuzzy_match (strip chapter) (p_id q)) (questions bank)"
    by (simp add: search_by_chapter_def search_loop_filter)
  have b: "fuzzy_match ''1.2'' ''1.2'' \<and> fuzzy_match ''1.2'' ''1.2.3'' \<and>
   fuzzy_match ''1.2'' ''1.20'' \<and> fuzzy_match ''1.2'' ''21.2''"
    by code_simp
  from a b show ?thesis by blast
qed

theorem C8_chapter_search_witness:
  "'' 1.2'' \<noteq> [] \<and> search_by_chapter bank_sample '' 1.2'' = [q_sample]"
proof -
  have h: "'' 1.2'' \<noteq> []" by simp
  have e: "filter (\<lambda>q. fuzzy_match (strip '' 1.2'') (p_id q)) (questions bank_sample)
      = [q_sample]"
    by code_simp
  show ?thesis
    using h e C8_chapter_search [of "'' 1.2''" bank_sample] by simp
qed

section \<open>Claims about loading\<close>

text \<open>
  C1: the scenario text is loaded as one Question with display id \<open>Q001\<close>. On the code
  the display id is empty: \<open>findall\<close> returns the text after each \<open>[J]\<close>, so the chunk
  handed to \<open>parse_question\<close> never contains the tag that its \<open>[J]\<close> search looks for.
  The other fields are as the claim says.
\<close>

theorem C1_scenario_display_id_empty:
  "read_text env_sample ''/bank/a.txt'' = Some scenario_text \<and>
   load_from_file env_sample \<lparr>questions = [], photo_dir = []\<rparr> ''/bank/a.txt'' None =
     (True,
      \<lparr>questions =
         [\<lparr>j_id = [], p_id = ''1.2.1'', i_id = ''MC'', question = ''What is X?'',
           answer = ''A'', options = [(''A'', ''OptA''), (''B'', ''OptB'')],
           image_path = None\<rparr>],
       photo_dir = ''/bank/photo''\<rparr>)"
  by code_simp

text \<open>
  C2 (as stated): a failing load leaves the previously loaded list untouched. On the code a
  readable file without any Question makes \<open>load_from_file\<close> return \<open>False\<close> after the
  list has been reset, so a bank holding one Question is left empty.
\<close>

theorem C2_empty_file_counterexample:
  "read_text env_sample ''/bank/empty.txt'' = Some [] \<and>
   questions bank_sample = [q_sample] \<and>
   \<not> fst (load_from_file env_sample bank_sample ''/bank/empty.txt'' None) \<and>
   questions (snd (load_from_file env_sample bank_sample ''/bank/empty.txt'' None)) = []"
  by code_simp

text \<open>
  C2 (amended): \<open>load_from_file\<close> returns \<open>False\<close> exactly when the file cannot be read or
  zero Questions were produced. When the file cannot be read the previously loaded list is
  left untouched; when it can be read the list is replaced by the Questions parsed from it,
  so a load that produces zero Questions leaves the empty list.
\<close>

theorem C2_load_failure:
  "(\<not> fst (load_from_file env bank filepath pd)) =
     (read_text env filepath = None \<or>
      questions (snd (load_from_file env bank filepath pd)) = []) \<and>
   (read_text env filepath = None \<longrightarrow>
      questions (snd (load_from_file env bank filepath pd)) = questions bank) \<and>
   (read_text env filepath = Some content \<longrightarrow>
      questions (snd (load_from_file env bank filepath pd)) =
        List.map_filter (parse_question env (choose_photo_dir env filepath pd))
          (findall_J content))"
proof (cases "read_text env filepath")
  case None
  then show ?thesis by (simp add: load_from_file_unreadable)
next
  case (Some c)
  then show ?thesis by (simp add: load_from_file_read Let_def)
qed

theorem C2_load_failure_witness:
  "read_text env_sample ''/bank/none.txt'' = None \<and>
   \<not> fst (load_from_file env_sample bank_sample ''/bank/none.txt'' None) \<and>
   questions (snd (load_from_file env_sample bank_sample ''/bank/none.txt'' None)) = [q_sample] \<and>
   read_text env_sample ''/bank/empty.txt'' = Some [] \<and>
   \<not> fst (load_from_file env_sample bank_sample ''/bank/empty.txt'' None) \<and>
   questions (snd (load_from_file env_sample bank_sample ''/bank/empty.txt'' None)) = []"
proof -
  have a: "read_text env_sample ''/bank/none.txt'' = None" by code_simp
  have b: "read_text env_sample ''/bank/empty.txt'' = Some []" by code_simp
  have c: "questions bank_sample = [q_sample]" by code_simp
  have d: "List.map_filter (parse_question env_sample
              (choose_photo_dir env_sample ''/bank/empty.txt'' None)) (findall_J []) = []"
    by (simp add: List.map_filter_simps)
  show ?thesis
    using a b c d
      C2_load_failure [of env_sample bank_sample "''/bank/none.txt''" None "[]"]
      C2_load_failure [of env_sample bank_sample "''/bank/empty.txt''" None "[]"]
    by simp
qed

section \<open>Claims about discarded chunks and image resolution\<close>

lemma dict_set_keys: "set (dict_keys (dict_set d k v)) = insert k (set (dict_keys d))"
  by (induction d k v rule: dict_set.induct) (auto simp: dict_keys_def)

lemma options_loop_keys:
  "set (dict_keys (options (options_loop text ks q)))
     \<subseteq> set (dict_keys (options q)) \<union> (\<lambda>c. [c]) ` set ks"
proof (induction ks arbitrary: q)
  case Nil
  then show ?case by simp
next
  case (Cons k ks)
  show ?case
  proof (cases "re_search_tag k text")
    case None
    with Cons [of q] show ?thesis by auto
  next
    case (Some g)
    with Cons [of "q\<lparr>options := dict_set (options q) [k] (strip g)\<rparr>"]
    show ?thesis by (auto simp: dict_set_keys)
  qed
qed

lemma parse_question_Some:
  assumes "parse_question env pd text = Some q"
  shows "question q \<noteq> []"
    and "set (dict_keys (options q)) \<subseteq> {''A'', ''B'', ''C'', ''D''}"
proof -
  from assms have ne: "field_value CHR ''Q'' text \<noteq> []"
    and q: "q = (options_loop text ''ABCD'' (scalars text))
                   \<lparr>image_path := (case re_search_tag CHR ''F'' text of
                           Some g \<Rightarrow> resolve_image env pd (strip g) | None \<Rightarrow> None)\<rparr>"
    unfolding parse_question_eq by (simp_all split: if_splits del: options_loop.simps)
  have "question q = question (options_loop text ''ABCD'' (scalars text))"
    unfolding q by simp
  also have "\<dots> = question (scalars text)" by (rule options_loop_fields)
  finally show "question q \<noteq> []" using ne by (simp add: scalars_def)
  have "options q = options (options_loop text ''ABCD'' (scalars text))"
    unfolding q by simp
  moreover have "set (dict_keys (options (options_loop text ''ABCD'' (scalars text))))
      \<subseteq> set (dict_keys (options (scalars text))) \<union> (\<lambda>c. [c]) ` set ''ABCD''"
    by (rule options_loop_keys)
  moreover have "set (dict_keys (options (scalars text))) = {}"
    by (simp add: scalars_def dict_keys_def)
  ultimately show "set (dict_keys (options q)) \<subseteq> {''A'', ''B'', ''C'', ''D''}"
    by auto
qed

text \<open>
  C10: a chunk that yields no \<open>Q\<close> value produces no Question and does not stop the
  parsing of the chunks after it; so every Question that a load puts into the bank has a
  non-empty text, and the keys of its options are among A, B, C, D.
\<close>

theorem C10_chunk_without_question:
  "(re_search_tag CHR ''Q'' chunk = None \<longrightarrow> parse_question env pd chunk = None) \<and>
   (parse_question env (photo_dir bank) chunk = None \<longrightarrow>
      load_loop env (chunk # rest) bank = load_loop env rest bank) \<and>
   (read_text env filepath = Some content \<longrightarrow>
      (\<forall>q \<in> set (questions (snd (load_from_file env bank filepath photo_arg))).
         question q \<noteq> [] \<and> set (dict_keys (options q)) \<subseteq> {''A'', ''B'', ''C'', ''D''}))"
proof -
  have a: "re_search_tag CHR ''Q'' chunk = None \<longrightarrow> parse_question env pd chunk = None"
    unfolding parse_question_eq by (simp add: field_value_def del: options_loop.simps)
  have b: "parse_question env (photo_dir bank) chunk = None \<longrightarrow>
      load_loop env (chunk # rest) bank = load_loop env rest bank"
    by simp
  have c: "question q \<noteq> [] \<and> set (dict_keys (options q)) \<subseteq> {''A'', ''B'', ''C'', ''D''}"
    if r: "read_text env filepath = Some content"
      and q: "q \<in> set (questions (snd (load_from_file env bank filepath photo_arg)))" for q
  proof -
    from q obtain g where "parse_question env (choose_photo_dir env filepath photo_arg) g = Some q"
      unfolding load_from_file_read [OF r] by (auto simp: Let_def List.map_filter_def)
    then show ?thesis using parse_question_Some by blast
  qed
  from a b c show ?thesis by blast
qed

theorem C10_chunk_without_question_witness:
  "re_search_tag CHR ''Q'' (text_of_lines [''1'', ''[P]1.1'']) = None \<and>
   parse_question env_sample ''/bank/photo'' (text_of_lines [''1'', ''[P]1.1'']) = None \<and>
   read_text env_sample ''/bank/mixed.txt''
     = Some (text_of_lines [''[J]1'', ''[P]1.1'', ''[J]2'', ''[Q]b'', ''[C]third'',
                            ''[F]img1.bmp'']) \<and>
   map question (questions (snd (load_from_file env_sample bank_sample ''/bank/mixed.txt'' None)))
     = [''b''] \<and>
   list_all (\<lambda>q. question q \<noteq> [] \<and> set (dict_keys (options q)) \<subseteq> {''A'', ''B'', ''C'', ''D''})
     (questions (snd (load_from_file env_sample bank_sample ''/bank/mixed.txt'' None)))"
proof -
  have a: "re_search_tag CHR ''Q'' (text_of_lines [''1'', ''[P]1.1'']) = None" by code_simp
  have r: "read_text env_sample ''/bank/mixed.txt''
     = Some (text_of_lines [''[J]1'', ''[P]1.1'', ''[J]2'', ''[Q]b'', ''[C]third'',
                            ''[F]img1.bmp''])" by code_simp
  have m: "map question (questions (snd (load_from_file env_sample bank_sample ''/bank/mixed.txt'' None)))
     = [''b'']" by code_simp
  show ?thesis
    using a r m
      C10_chunk_without_question [of "text_of_lines [''1'', ''[P]1.1'']" env_sample
        "''/bank/photo''" bank_sample "[]" "''/bank/mixed.txt''"
        "text_of_lines [''[J]1'', ''[P]1.1'', ''[J]2'', ''[Q]b'', ''[C]third'', ''[F]img1.bmp'']"
        None]
    by (simp add: list_all_iff)
qed

lemma ext_loop_find:
  "ext_loop env d base exts p =
     (case find (path_exists env) (map (\<lambda>ext. path_join d (base @ ext)) exts) of
        Some a \<Rightarrow> a | None \<Rightarrow> p)"
  by (induction exts) (simp_all add: Let_def)

lemma find_exists: "find P xs = Some a \<Longrightarrow> P a"
  by (induction xs) (auto split: if_splits)

lemma resolve_image_eq:
  "pd \<noteq> [] \<Longrightarrow>
   resolve_image env pd f =
     (if path_exists env (path_join (abspath env pd) f)
      then Some (abspath env (path_join (abspath env pd) f))
      else (case find (path_exists env)
                   (map (\<lambda>ext. path_join (abspath env pd) (splitext_root f @ ext))
                        [''.jpg'', ''.png'', ''.jpeg'', ''.JPG'', ''.PNG'', ''.JPEG'']) of
              Some p \<Rightarrow> Some (abspath env p)
            | None \<Rightarrow> None))"
proof (cases "path_exists env (path_join (abspath env pd) f)")
  case True
  assume "pd \<noteq> []"
  with True show ?thesis by (simp add: resolve_image_def Let_def)
next
  case False
  assume pd: "pd \<noteq> []"
  let ?c = "find (path_exists env)
                   (map (\<lambda>ext. path_join (abspath env pd) (splitext_root f @ ext))
                        image_extensions)"
  show ?thesis
  proof (cases ?c)
    case None
    with False pd show ?thesis
      by (simp add: resolve_image_def Let_def ext_loop_find image_extensions_def)
  next
    case (Some a)
    then have "path_exists env a" by (rule find_exists)
    with Some False pd show ?thesis
      by (simp add: resolve_image_def Let_def ext_loop_find image_extensions_def)
  qed
qed

text \<open>
  C9: when a chunk has an \<open>F\<close> tag and a media directory is configured, the candidate
  path is the (absolute) media directory joined with the \<open>F\<close> value; if it does not exist
  the extension of the \<open>F\<close> value is stripped and \<open>.jpg .png .jpeg .JPG .PNG .JPEG\<close> are
  tried in this order, the first existing path winning; if none exists the image path is
  unset. In each case the Question is produced.
\<close>

theorem C9_image_resolution:
  assumes "re_search_tag CHR ''F'' chunk = Some g"
    and "pd \<noteq> []"
    and "field_value CHR ''Q'' chunk \<noteq> []"
  shows "\<exists>q. parse_question env pd chunk = Some q \<and>
     image_path q =
       (if path_exists env (path_join (abspath env pd) (strip g))
        then Some (abspath env (path_join (abspath env pd) (strip g)))
        else (case find (path_exists env)
                     (map (\<lambda>ext. path_join (abspath env pd) (splitext_root (strip g) @ ext))
                          [''.jpg'', ''.png'', ''.jpeg'', ''.JPG'', ''.PNG'', ''.JPEG'']) of
                Some p \<Rightarrow> Some (abspath env p)
              | None \<Rightarrow> None))"
  unfolding parse_question_eq
  using assms by (simp add: resolve_image_eq del: options_loop.simps)

theorem C9_image_resolution_witness:
  "re_search_tag CHR ''F'' (text_of_lines [''[Q]x'', ''[F] img1.bmp'']) = Some '' img1.bmp'' \<and>
   field_value CHR ''Q'' (text_of_lines [''[Q]x'', ''[F] img1.bmp'']) \<noteq> [] \<and>
   splitext_root ''img1.bmp'' = ''img1'' \<and>
   map_option image_path
     (parse_question env_sample ''/bank/photo'' (text_of_lines [''[Q]x'', ''[F] img1.bmp'']))
     = Some (Some ''/bank/photo/img1.png'') \<and>
   map_option image_path
     (parse_question (env_sample\<lparr>path_exists := (\<lambda>p. False)\<rparr>) ''/bank/photo''
        (text_of_lines [''[Q]x'', ''[F] img1.bmp'']))
     = Some None"
proof -
  have f: "re_search_tag CHR ''F'' (text_of_lines [''[Q]x'', ''[F] img1.bmp'']) = Some '' img1.bmp''"
    by code_simp
  have q: "field_value CHR ''Q'' (text_of_lines [''[Q]x'', ''[F] img1.bmp'']) \<noteq> []"
    by code_simp
  have d: "''/bank/photo'' \<noteq> []" by simp
  have s: "splitext_root ''img1.bmp'' = ''img1''" by code_simp
  have v1: "(if path_exists env_sample (path_join (abspath env_sample ''/bank/photo'') (strip '' img1.bmp''))
        then Some (abspath env_sample (path_join (abspath env_sample ''/bank/photo'') (strip '' img1.bmp'')))
        else (case find (path_exists env_sample)
                     (map (\<lambda>ext. path_join (abspath env_sample ''/bank/photo'') (splitext_root (strip '' img1.bmp'') @ ext))
                          [''.jpg'', ''.png'', ''.jpeg'', ''.JPG'', ''.PNG'', ''.JPEG'']) of
                Some p \<Rightarrow> Some (abspath env_sample p)
              | None \<Rightarrow> None)) = Some ''/bank/photo/img1.png''"
    by code_simp
  show ?thesis
    using f q s v1 C9_image_resolution [OF f d q, of env_sample]
      C9_image_resolution [OF f d q, of "env_sample\<lparr>path_exists := (\<lambda>p. False)\<rparr>"]
    by auto
qed

section \<open>Helper lemmas: the splitting regular expression\<close>

lemma startswith_tag_straddle:
  assumes "startswith (tag X) (body @ tag X @ rest)" and "body \<noteq> []"
  shows "prefix (tag X) body"
proof (cases body)
  case Nil
  with assms show ?thesis by simp
next
  case (Cons a as)
  show ?thesis
  proof (cases as)
    case Nil
    with Cons assms show ?thesis by (auto simp: tag_def)
  next
    case (Cons b bs)
    note c2 = Cons
    show ?thesis
    proof (cases bs)
      case Nil
      with c2 \<open>body = a # as\<close> assms show ?thesis by (auto simp: tag_def)
    next
      case (Cons c cs)
      with c2 \<open>body = a # as\<close> assms show ?thesis by (auto simp: tag_def)
    qed
  qed
qed

lemma no_tag_not_startswith:
  assumes "\<not> sublist (tag X) (c # cs)"
  shows "\<not> startswith (tag X) (c # cs @ tag X @ rest)"
proof
  assume "startswith (tag X) (c # cs @ tag X @ rest)"
  then have "startswith (tag X) ((c # cs) @ tag X @ rest)" by simp
  then have "prefix (tag X) (c # cs)" by (rule startswith_tag_straddle) simp
  with assms show False by (simp add: sublist_Cons_right)
qed

lemma lazy_group_until_tag:
  "\<not> sublist (tag CHR ''J'') body \<Longrightarrow> lazy_group (body @ tag CHR ''J'' @ rest) = body"
proof (induction body)
  case Nil
  then show ?case by (simp add: tag_def)
next
  case (Cons c cs)
  from Cons.prems have n: "\<not> startswith (tag CHR ''J'') (c # cs @ tag CHR ''J'' @ rest)"
    by (rule no_tag_not_startswith)
  from Cons.prems have "\<not> sublist (tag CHR ''J'') cs" by (simp add: sublist_Cons_right)
  then have ih: "lazy_group (cs @ tag CHR ''J'' @ rest) = cs" by (rule Cons.IH)
  have ne: "cs @ tag CHR ''J'' @ rest \<noteq> []" by (simp add: tag_def)
  from n ih ne show ?case by simp
qed

lemma lazy_group_to_end:
  "\<not> sublist (tag CHR ''J'') body \<Longrightarrow>
   lazy_group body = (if body \<noteq> [] \<and> last body = newline then butlast body else body)"
proof (induction body)
  case Nil
  then show ?case by simp
next
  case (Cons c cs)
  from Cons.prems have n: "\<not> startswith (tag CHR ''J'') (c # cs)"
    and t: "\<not> sublist (tag CHR ''J'') cs"
    by (simp_all add: sublist_Cons_right startswith_prefix)
  from Cons.IH [OF t] n show ?case by (cases "cs = []") simp_all
qed

lemma findall_J_no_tag_Nil: "\<not> sublist (tag CHR ''J'') s \<Longrightarrow> findall_J s = []"
proof (induction s)
  case Nil
  then show ?case by simp
next
  case (Cons c cs)
  then show ?case by (simp add: sublist_Cons_right startswith_prefix)
qed

lemma findall_J_skip:
  "\<not> sublist (tag CHR ''J'') pre \<Longrightarrow>
   findall_J (pre @ tag CHR ''J'' @ rest) = findall_J (tag CHR ''J'' @ rest)"
proof (induction pre)
  case Nil
  then show ?case by simp
next
  case (Cons c cs)
  from Cons.prems have n: "\<not> startswith (tag CHR ''J'') (c # cs @ tag CHR ''J'' @ rest)"
    by (rule no_tag_not_startswith)
  from Cons.prems have "\<not> sublist (tag CHR ''J'') cs" by (simp add: sublist_Cons_right)
  then have "findall_J (cs @ tag CHR ''J'' @ rest) = findall_J (tag CHR ''J'' @ rest)"
    by (rule Cons.IH)
  with n show ?case by simp
qed

lemma findall_J_tag:
  "findall_J (tag CHR ''J'' @ s) = lazy_group s # findall_J (drop (length (lazy_group s)) s)"
  by (simp add: tag_def Let_def)

lemma findall_J_chunk:
  assumes "\<not> sublist (tag CHR ''J'') body"
  shows "findall_J (tag CHR ''J'' @ body @ tag CHR ''J'' @ rest)
           = body # findall_J (tag CHR ''J'' @ rest)"
proof -
  let ?s = "body @ tag CHR ''J'' @ rest"
  have g: "lazy_group ?s = body" using assms by (rule lazy_group_until_tag)
  have "findall_J (tag CHR ''J'' @ ?s)
      = lazy_group ?s # findall_J (drop (length (lazy_group ?s)) ?s)"
    by (rule findall_J_tag)
  also have "\<dots> = body # findall_J (tag CHR ''J'' @ rest)"
    unfolding g by simp
  finally show ?thesis .
qed

lemma findall_J_last_chunk:
  assumes "\<not> sublist (tag CHR ''J'') body"
  shows "findall_J (tag CHR ''J'' @ body)
           = [if body \<noteq> [] \<and> last body = newline then butlast body else body]"
proof (cases "body \<noteq> [] \<and> last body = newline")
  case True
  then have g: "lazy_group body = butlast body"
    using lazy_group_to_end [OF assms] by simp
  from True have "body = butlast body @ [newline]"
    by (metis append_butlast_last_id)
  then have "drop (length (butlast body)) body = [newline]"
    by (metis append_eq_conv_conj)
  moreover have "findall_J [newline] = []" by (simp add: tag_def newline_def)
  ultimately show ?thesis using True by (simp add: findall_J_tag g)
next
  case False
  then have g: "lazy_group body = body"
    using lazy_group_to_end [OF assms] by auto
  from False show ?thesis by (simp only: findall_J_tag g) auto
qed


section \<open>Claims about splitting and field extraction\<close>

text \<open>
  C5 (as stated): the content is split into one chunk per line beginning with \<open>[J]\<close>. On
  the code a \<open>[J]\<close> inside a line splits as well: the content below has one line that
  begins with \<open>[J]\<close>, yet \<open>findall\<close> yields two chunks and the load two Questions.
\<close>

theorem C5_inline_tag_counterexample:
  "read_text env_sample ''/bank/inline.txt''
     = Some (text_of_lines [''[J]1'', ''[Q]a [J]2'', ''[Q]b'']) \<and>
   spec_record_count (text_of_lines [''[J]1'', ''[Q]a [J]2'', ''[Q]b'']) = 1 \<and>
   length (findall_J (text_of_lines [''[J]1'', ''[Q]a [J]2'', ''[Q]b''])) = 2 \<and>
   map question
     (questions (snd (load_from_file env_sample bank_sample ''/bank/inline.txt'' None)))
     = [''a'', ''b'']"
  by code_simp

text \<open>
  C5 (amended): the content is split into one chunk per occurrence of \<open>[J]\<close>, wherever
  in a line it stands. A chunk is the text after one \<open>[J]\<close> up to the next \<open>[J]\<close>, or
  up to the end of the content (a newline that ends the content left out); content before
  the first \<open>[J]\<close> is discarded, and content without \<open>[J]\<close> gives no chunk. The
  Questions of a load are the parsed chunks in chunk order.
\<close>

theorem C5_split_at_every_tag:
  "(\<not> sublist ''[J]'' pre \<longrightarrow>
      findall_J pre = [] \<and> findall_J (pre @ ''[J]'' @ rest) = findall_J (''[J]'' @ rest)) \<and>
   (\<not> sublist ''[J]'' body \<longrightarrow>
      findall_J (''[J]'' @ body @ ''[J]'' @ rest) = body # findall_J (''[J]'' @ rest) \<and>
      findall_J (''[J]'' @ body)
        = [if body \<noteq> [] \<and> last body = newline then butlast body else body]) \<and>
   (read_text env filepath = Some content \<longrightarrow>
      questions (snd (load_from_file env bank filepath photo_arg)) =
        List.map_filter (parse_question env (choose_photo_dir env filepath photo_arg))
          (findall_J content))"
proof -
  have t: "''[J]'' = tag CHR ''J''" by (simp add: tag_def)
  have a: "\<not> sublist ''[J]'' pre \<longrightarrow>
      findall_J pre = [] \<and> findall_J (pre @ ''[J]'' @ rest) = findall_J (''[J]'' @ rest)"
    unfolding t using findall_J_no_tag_Nil findall_J_skip by blast
  have b: "\<not> sublist ''[J]'' body \<longrightarrow>
      findall_J (''[J]'' @ body @ ''[J]'' @ rest) = body # findall_J (''[J]'' @ rest) \<and>
      findall_J (''[J]'' @ body)
        = [if body \<noteq> [] \<and> last body = newline then butlast body else body]"
    unfolding t using findall_J_chunk findall_J_last_chunk by blast
  have c: "read_text env filepath = Some content \<longrightarrow>
      questions (snd (load_from_file env bank filepath photo_arg)) =
        List.map_filter (parse_question env (choose_photo_dir env filepath photo_arg))
          (findall_J content)"
    by (simp add: load_from_file_read Let_def)
  from a b c show ?thesis by blast
qed

theorem C5_split_at_every_tag_witness:
  "\<not> sublist ''[J]'' ''junk'' \<and> \<not> sublist ''[J]'' ''1 [Q]a '' \<and>
   findall_J ''junk'' = [] \<and>
   findall_J (''junk'' @ ''[J]'' @ ''1 [Q]a '' @ ''[J]'' @ ''2 [Q]b'')
     = [''1 [Q]a '', ''2 [Q]b''] \<and>
   read_text env_sample ''/bank/inline.txt''
     = Some (text_of_lines [''[J]1'', ''[Q]a [J]2'', ''[Q]b'']) \<and>
   map question
     (questions (snd (load_from_file env_sample bank_sample ''/bank/inline.txt'' None)))
     = map question
         (List.map_filter (parse_question env_sample
              (choose_photo_dir env_sample ''/bank/inline.txt'' None))
            (findall_J (text_of_lines [''[J]1'', ''[Q]a [J]2'', ''[Q]b''])))"
proof -
  have h1: "\<not> sublist ''[J]'' ''junk''" by code_simp
  have h2: "\<not> sublist ''[J]'' ''1 [Q]a ''" by code_simp
  have h3: "\<not> sublist ''[J]'' ''2 [Q]b''" by code_simp
  have r: "read_text env_sample ''/bank/inline.txt''
     = Some (text_of_lines [''[J]1'', ''[Q]a [J]2'', ''[Q]b''])" by code_simp
  have l: "last ''2 [Q]b'' \<noteq> newline" by (simp add: newline_def)
  show ?thesis
    using h1 h2 h3 r l
      C5_split_at_every_tag [where pre = "''junk''"
        and rest = "''1 [Q]a '' @ ''[J]'' @ ''2 [Q]b''" and body = "''2 [Q]b''"
        and env = env_sample and filepath = "''/bank/inline.txt''"
        and content = "text_of_lines [''[J]1'', ''[Q]a [J]2'', ''[Q]b'']"
        and bank = bank_sample and photo_arg = None]
      C5_split_at_every_tag [where pre = "''junk''" and rest = "''2 [Q]b''"
        and body = "''1 [Q]a ''" and env = env_sample and filepath = "''/bank/inline.txt''"
        and content = "text_of_lines [''[J]1'', ''[Q]a [J]2'', ''[Q]b'']"
        and bank = bank_sample and photo_arg = None]
    by simp
qed

section \<open>Helper lemmas: the field regular expression\<close>

lemma tag_match_at_0:
  "tag_match_at X (c # cs) 0 =
     (startswith (tag X) (c # cs) \<and> takeWhile (\<lambda>d. d \<noteq> newline) (drop 3 (c # cs)) \<noteq> [])"
proof -
  have "(takeWhile (\<lambda>d. d \<noteq> newline) (drop 3 (c # cs)) \<noteq> [])
      = (3 < length (c # cs) \<and> (c # cs) ! 3 \<noteq> newline)"
  proof (cases "drop 3 (c # cs)")
    case Nil
    then show ?thesis by simp
  next
    case (Cons d ds)
    then have l: "3 < length (c # cs)" by (metis drop_eq_Nil list.distinct(1) not_le)
    then have "hd (drop 3 (c # cs)) = (c # cs) ! 3" by (rule hd_drop_conv_nth)
    with Cons l show ?thesis by auto
  qed
  then show ?thesis by (simp add: tag_match_at_def)
qed

lemma tag_match_at_Suc: "tag_match_at X (c # cs) (Suc i) = tag_match_at X cs i"
  by (simp add: tag_match_at_def add.commute)

lemma re_search_tag_None_iff:
  "(re_search_tag X text = None) = (\<forall>i. \<not> tag_match_at X text i)"
proof (induction "text")
  case Nil
  then show ?case by (simp add: tag_match_at_def)
next
  case (Cons c cs)
  show ?case
  proof (cases "tag_match_at X (c # cs) 0")
    case True
    then have "re_search_tag X (c # cs) \<noteq> None"
      by (simp add: tag_match_at_0 Let_def)
    with True show ?thesis by blast
  next
    case False
    then have "re_search_tag X (c # cs) = re_search_tag X cs"
      by (auto simp: tag_match_at_0 Let_def)
    moreover have "(\<forall>i. \<not> tag_match_at X (c # cs) i) = (\<forall>i. \<not> tag_match_at X cs i)"
    proof
      assume a: "\<forall>i. \<not> tag_match_at X (c # cs) i"
      show "\<forall>i. \<not> tag_match_at X cs i"
      proof
        fix i
        from a have "\<not> tag_match_at X (c # cs) (Suc i)" by blast
        then show "\<not> tag_match_at X cs i" by (simp add: tag_match_at_Suc)
      qed
    next
      assume a: "\<forall>i. \<not> tag_match_at X cs i"
      show "\<forall>i. \<not> tag_match_at X (c # cs) i"
      proof
        fix i
        show "\<not> tag_match_at X (c # cs) i"
          using False a by (cases i) (simp_all add: tag_match_at_Suc)
      qed
    qed
    ultimately show ?thesis using Cons.IH by simp
  qed
qed

lemma re_search_tag_first_match:
  "tag_match_at X text i \<Longrightarrow> (\<forall>j<i. \<not> tag_match_at X text j) \<Longrightarrow>
   re_search_tag X text = Some (takeWhile (\<lambda>d. d \<noteq> newline) (drop (i + 3) text))"
proof (induction "text" arbitrary: i)
  case Nil
  then show ?case by (simp add: tag_match_at_def)
next
  case (Cons c cs)
  show ?case
  proof (cases i)
    case 0
    with Cons.prems(1) show ?thesis by (simp add: tag_match_at_0 Let_def)
  next
    case (Suc k)
    with Cons.prems(2) have n: "\<not> tag_match_at X (c # cs) 0" by blast
    from Suc Cons.prems(1) have m: "tag_match_at X cs k" by (simp add: tag_match_at_Suc)
    have "\<forall>j<k. \<not> tag_match_at X cs j"
    proof (intro allI impI)
      fix j assume "j < k"
      then have "Suc j < i" using Suc by simp
      with Cons.prems(2) have "\<not> tag_match_at X (c # cs) (Suc j)" by blast
      then show "\<not> tag_match_at X cs j" by (simp add: tag_match_at_Suc)
    qed
    with m have r: "re_search_tag X cs = Some (takeWhile (\<lambda>d. d \<noteq> newline) (drop (k + 3) cs))"
      by (rule Cons.IH)
    from n have e: "re_search_tag X (c # cs) = re_search_tag X cs"
      by (auto simp: tag_match_at_0 Let_def)
    have "i + 3 = Suc (k + 3)" using Suc by simp
    then have d: "drop (i + 3) (c # cs) = drop (k + 3) cs" by (simp only: drop_Suc_Cons)
    show ?thesis unfolding e d by (rule r)
  qed
qed

lemma dict_set_map_of: "map_of (dict_set d k v) = (map_of d)(k \<mapsto> v)"
  by (induction d k v rule: dict_set.induct) auto

lemma options_loop_map_of:
  "map_of (options (options_loop text ks q)) [X] =
     (if X \<in> set ks
      then (case re_search_tag X text of
              Some g \<Rightarrow> Some (strip g) | None \<Rightarrow> map_of (options q) [X])
      else map_of (options q) [X])"
proof (induction ks arbitrary: q)
  case Nil
  then show ?case by simp
next
  case (Cons k ks)
  show ?case
  proof (cases "re_search_tag k text")
    case None
    with Cons [of q] show ?thesis by (auto split: option.splits)
  next
    case (Some g)
    with Cons [of "q\<lparr>options := dict_set (options q) [k] (strip g)\<rparr>"]
    show ?thesis by (auto simp: dict_set_map_of split: option.splits)
  qed
qed

lemma parse_question_option:
  assumes "parse_question env pd text = Some q" and "X \<in> set ''ABCD''"
  shows "map_of (options q) [X] = map_option strip (re_search_tag X text)"
proof -
  from assms(1) have q: "q = (options_loop text ''ABCD'' (scalars text))
                   \<lparr>image_path := (case re_search_tag CHR ''F'' text of
                           Some g \<Rightarrow> resolve_image env pd (strip g) | None \<Rightarrow> None)\<rparr>"
    unfolding parse_question_eq by (simp split: if_splits del: options_loop.simps)
  have "options q = options (options_loop text ''ABCD'' (scalars text))"
    unfolding q by simp
  then have "map_of (options q) [X]
      = map_of (options (options_loop text ''ABCD'' (scalars text))) [X]" by simp
  also have "\<dots> = (case re_search_tag X text of
              Some g \<Rightarrow> Some (strip g) | None \<Rightarrow> map_of (options (scalars text)) [X])"
    using assms(2) by (simp only: options_loop_map_of if_True)
  also have "\<dots> = map_option strip (re_search_tag X text)"
    by (simp add: scalars_def split: option.splits)
  finally show ?thesis .
qed

lemma parse_question_scalars:
  assumes "parse_question env pd text = Some q"
  shows "p_id q = field_value CHR ''P'' text"
    and "i_id q = field_value CHR ''I'' text"
    and "question q = field_value CHR ''Q'' text"
    and "answer q = field_value CHR ''T'' text"
    and "image_path q = (case re_search_tag CHR ''F'' text of
                           Some g \<Rightarrow> resolve_image env pd (strip g) | None \<Rightarrow> None)"
proof -
  from assms have q: "q = (options_loop text ''ABCD'' (scalars text))
                   \<lparr>image_path := (case re_search_tag CHR ''F'' text of
                           Some g \<Rightarrow> resolve_image env pd (strip g) | None \<Rightarrow> None)\<rparr>"
    unfolding parse_question_eq by (simp split: if_splits del: options_loop.simps)
  show "p_id q = field_value CHR ''P'' text" "i_id q = field_value CHR ''I'' text"
    "question q = field_value CHR ''Q'' text" "answer q = field_value CHR ''T'' text"
    unfolding q by (simp_all add: options_loop_fields scalars_def del: options_loop.simps)
  show "image_path q = (case re_search_tag CHR ''F'' text of
                           Some g \<Rightarrow> resolve_image env pd (strip g) | None \<Rightarrow> None)"
    unfolding q by simp
qed


text \<open>
  C6 (as stated): a field is read from the first line of the form \<open>[X]rest\<close> of the
  chunk. On the code the tag is searched anywhere in the chunk and must be followed by a
  character other than a newline: below, \<open>[P]\<close> inside the question line wins over the
  line \<open>[P]1.2\<close>, and an empty \<open>[P]\<close> line is passed over for the next one.
\<close>

theorem C6_inline_and_empty_tag_counterexample:
  "spec_field CHR ''P'' (text_of_lines [''[Q]What [P]9'', ''[P]1.2'']) = Some ''1.2'' \<and>
   map_option p_id
     (parse_question env_sample [] (text_of_lines [''[Q]What [P]9'', ''[P]1.2'']))
     = Some ''9'' \<and>
   spec_field CHR ''P'' (text_of_lines [''[Q]x'', ''[P]'', ''[P]1.2'']) = Some [] \<and>
   map_option p_id
     (parse_question env_sample [] (text_of_lines [''[Q]x'', ''[P]'', ''[P]1.2'']))
     = Some ''1.2''"
  by code_simp

text \<open>
  C6 (amended): within a chunk, the value of a field tag \<open>X\<close> among P, I, Q, T, A, B, C,
  D, F is taken at the first position of the chunk, at the start of a line or inside one,
  where \<open>[X]\<close> is followed by at least one character other than a newline; the value is
  the rest of that line, trimmed of leading and trailing whitespace. A tag with no such
  position leaves the attribute at its default: the empty string for a scalar, no key in
  the options, no image path.
\<close>

theorem C6_field_extraction:
  "(re_search_tag X chunk = None) = (\<forall>i. \<not> tag_match_at X chunk i) \<and>
   (tag_match_at X chunk i \<and> (\<forall>j<i. \<not> tag_match_at X chunk j) \<longrightarrow>
      re_search_tag X chunk = Some (takeWhile (\<lambda>d. d \<noteq> newline) (drop (i + 3) chunk))) \<and>
   (parse_question env pd chunk = Some q \<longrightarrow>
      p_id q = (case re_search_tag CHR ''P'' chunk of Some g \<Rightarrow> strip g | None \<Rightarrow> []) \<and>
      i_id q = (case re_search_tag CHR ''I'' chunk of Some g \<Rightarrow> strip g | None \<Rightarrow> []) \<and>
      question q = (case re_search_tag CHR ''Q'' chunk of Some g \<Rightarrow> strip g | None \<Rightarrow> []) \<and>
      answer q = (case re_search_tag CHR ''T'' chunk of Some g \<Rightarrow> strip g | None \<Rightarrow> []) \<and>
      (\<forall>Y \<in> set ''ABCD''.
         map_of (options q) [Y] = map_option strip (re_search_tag Y chunk)) \<and>
      image_path q = (case re_search_tag CHR ''F'' chunk of
                        Some g \<Rightarrow> resolve_image env pd (strip g) | None \<Rightarrow> None))"
proof -
  have a: "(re_search_tag X chunk = None) = (\<forall>i. \<not> tag_match_at X chunk i)"
    by (rule re_search_tag_None_iff)
  have b: "tag_match_at X chunk i \<and> (\<forall>j<i. \<not> tag_match_at X chunk j) \<longrightarrow>
      re_search_tag X chunk = Some (takeWhile (\<lambda>d. d \<noteq> newline) (drop (i + 3) chunk))"
    using re_search_tag_first_match by blast
  have c: "p_id q = (case re_search_tag CHR ''P'' chunk of Some g \<Rightarrow> strip g | None \<Rightarrow> []) \<and>
      i_id q = (case re_search_tag CHR ''I'' chunk of Some g \<Rightarrow> strip g | None \<Rightarrow> []) \<and>
      question q = (case re_search_tag CHR ''Q'' chunk of Some g \<Rightarrow> strip g | None \<Rightarrow> []) \<and>
      answer q = (case re_search_tag CHR ''T'' chunk of Some g \<Rightarrow> strip g | None \<Rightarrow> []) \<and>
      (\<forall>Y \<in> set ''ABCD''.
         map_of (options q) [Y] = map_option strip (re_search_tag Y chunk)) \<and>
      image_path q = (case re_search_tag CHR ''F'' chunk of
                        Some g \<Rightarrow> resolve_image env pd (strip g) | None \<Rightarrow> None)"
    if p: "parse_question env pd chunk = Some q"
  proof -
    have o: "\<forall>Y \<in> set ''ABCD''.
         map_of (options q) [Y] = map_option strip (re_search_tag Y chunk)"
      using parse_question_option [OF p] by blast
    from parse_question_scalars [OF p] o show ?thesis
      unfolding field_value_def by blast
  qed
  from a b c show ?thesis by blast
qed

theorem C6_field_extraction_witness:
  "tag_match_at CHR ''P'' (text_of_lines [''[Q]What [P]9'', ''[P]'', ''[A] yes '']) 8 \<and>
   list_all (\<lambda>j. \<not> tag_match_at CHR ''P''
                    (text_of_lines [''[Q]What [P]9'', ''[P]'', ''[A] yes '']) j) [0..<8] \<and>
   re_search_tag CHR ''P'' (text_of_lines [''[Q]What [P]9'', ''[P]'', ''[A] yes ''])
     = Some ''9'' \<and>
   parse_question env_sample [] (text_of_lines [''[Q]What [P]9'', ''[P]'', ''[A] yes ''])
     = Some \<lparr>j_id = [], p_id = ''9'', i_id = [], question = ''What [P]9'', answer = [],
              options = [(''A'', ''yes'')], image_path = None\<rparr> \<and>
   map_of [(''A'', ''yes'')] ''A''
     = map_option strip
         (re_search_tag CHR ''A'' (text_of_lines [''[Q]What [P]9'', ''[P]'', ''[A] yes '']))"
proof -
  let ?w = "text_of_lines [''[Q]What [P]9'', ''[P]'', ''[A] yes '']"
  let ?q = "\<lparr>j_id = [], p_id = ''9'', i_id = [], question = ''What [P]9'', answer = [],
              options = [(''A'', ''yes'')], image_path = None\<rparr>"
  have m: "tag_match_at CHR ''P'' ?w 8" by code_simp
  have n: "list_all (\<lambda>j. \<not> tag_match_at CHR ''P'' ?w j) [0..<8]" by code_simp
  then have n': "\<forall>j<8. \<not> tag_match_at CHR ''P'' ?w j" by (simp add: list_all_iff)
  have t: "takeWhile (\<lambda>d. d \<noteq> newline) (drop (8 + 3) ?w) = ''9''" by code_simp
  have p: "parse_question env_sample [] ?w = Some ?q" by code_simp
  note th = C6_field_extraction [of "CHR ''P''" ?w 8 env_sample "[]" ?q]
  have r: "re_search_tag CHR ''P'' ?w = Some ''9''"
    using th [THEN conjunct2, THEN conjunct1] m n' t by simp
  have o: "map_of [(''A'', ''yes'')] ''A'' = map_option strip (re_search_tag CHR ''A'' ?w)"
    using th [THEN conjunct2, THEN conjunct2] p by simp
  from r o
  have "re_search_tag CHR ''P'' ?w = Some ''9'' \<and>
        map_of [(''A'', ''yes'')] ''A'' = map_option strip (re_search_tag CHR ''A'' ?w)"
    by (rule conjI)
  with m n p show ?thesis by simp
qed

end
